theory Spec2Isabelle
  imports Main "HOL-Library.Word"
begin

unbundle bit_operations_syntax

section \<open>The TP4000ZC serial protocol decoder (serial-meter.c)\<close>

text \<open>
  The meter sends one octet at a time.  The upper four bits of an octet give its position
  (1 to 14) inside a packet, the lower four bits carry LCD segment or mode data.  The
  program reads octets from a file descriptor, assembles them into a buffer, prints the
  four digits of the display and then the names of the active mode attributes.

  The model below follows the C text function by function.  The serial line is a list of
  octets still to be delivered by \<open>read\<close>; standard output is the string printed so
  far; \<open>exit\<close> and \<open>return\<close> are the two ways a call can end.
\<close>

text \<open>
  \<open>unsigned char\<close>, \<open>unsigned int\<close> and \<open>unsigned long\<close>.  The last is taken with
  64 bits, as on the Linux hosts the program is written for; only its bits 0 to 23 are
  ever set.  The \<open>int\<close> variables of the source hold values far from the limits of
  the type and are modelled by unbounded integers, loop counters by natural numbers.
\<close>

type_synonym u8 = "8 word"
type_synonym u32 = "32 word"
type_synonym ulong = "64 word"

subsection \<open>printf conversions\<close>

definition newline :: char where
  "newline = CHR 0x0A"

definition hex_digit :: "nat \<Rightarrow> char" where
  "hex_digit d = ''0123456789ABCDEF'' ! d"

definition dec_digit :: "nat \<Rightarrow> char" where
  "dec_digit d = ''0123456789'' ! d"

text \<open>\<open>%X\<close>: upper-case hexadecimal without padding.\<close>

fun show_hex :: "nat \<Rightarrow> string" where
  "show_hex n = (if n < 16 then [hex_digit n] else show_hex (n div 16) @ [hex_digit (n mod 16)])"

text \<open>\<open>%02X\<close>: the same, padded with zeros to two characters.\<close>

definition show_hex02 :: "nat \<Rightarrow> string" where
  "show_hex02 n = replicate (2 - length (show_hex n)) (CHR ''0'') @ show_hex n"

fun show_nat :: "nat \<Rightarrow> string" where
  "show_nat n = (if n < 10 then [dec_digit n] else show_nat (n div 10) @ [dec_digit (n mod 10)])"

text \<open>\<open>%d\<close>: signed decimal.\<close>

definition show_dec :: "int \<Rightarrow> string" where
  "show_dec i = (if i < 0 then CHR ''-'' # show_nat (nat (- i)) else show_nat (nat i))"

subsection \<open>Decoding a single digit\<close>

definition lcd_segments :: "int list" where
  "lcd_segments =
     [0x7D, 0x05, 0x5B, 0x1F, 0x27, 0x3E, 0x7E, 0x15, 0x7F, 0x3F, 0x68, 0x00]"

text \<open>
  The table search of \<open>decode_digit\<close>: \<open>for (n = 0; n < 12; n++)\<close>, returning
  \<open>n\<close> at the first match and \<open>-1\<close> when the loop runs out.
\<close>

function decode_digit_loop :: "nat \<Rightarrow> int \<Rightarrow> int" where
  "decode_digit_loop n segs =
     (if n < 12
      then (if lcd_segments ! n = segs then int n else decode_digit_loop (n + 1) segs)
      else - 1)"
  by pat_completeness auto
termination
  by (relation "measure (\<lambda>(n, segs). 12 - n)") auto

text \<open>
  \<open>value = ((byte1 & 0x7) << 4) | byte2\<close> is computed on \<open>unsigned int\<close> and stored
  in an \<open>int\<close>; \<open>segment_code\<close> is that stored value.
\<close>

definition segment_code :: "u32 \<Rightarrow> u32 \<Rightarrow> int" where
  "segment_code byte1 byte2 = sint (push_bit 4 (byte1 AND 0x7) OR byte2)"

definition decode_digit :: "u32 \<Rightarrow> u32 \<Rightarrow> int" where
  "decode_digit byte1 byte2 = decode_digit_loop 0 (segment_code byte1 byte2)"

subsection \<open>Reading a packet\<close>

text \<open>
  A call either returns a value to its caller or ends the process through \<open>exit\<close>.
\<close>

datatype control = Return int | Exit int

text \<open>
  What a call of \<open>read_packet\<close> leaves behind: how it ended, what it printed, the
  caller's buffer, and the octets of the line it has not consumed.
\<close>

record packet_result =
  ended :: control
  printed :: string
  frame :: "u8 list"
  unread :: "u8 list"

text \<open>\<open>for (x = 0; x < 14; x++) buf[x] = 0;\<close>\<close>

function clear_loop :: "nat \<Rightarrow> u8 list \<Rightarrow> u8 list" where
  "clear_loop x buf = (if x < 14 then clear_loop (x + 1) (buf[x := 0]) else buf)"
  by pat_completeness auto
termination
  by (relation "measure (\<lambda>(x, buf). 14 - x)") auto

text \<open>
  The main loop of \<open>read_packet\<close>, \<open>for (x = 0; x < 15; x++)\<close>.  \<open>read\<close> stores
  the received octet in the low-order byte of the zero-initialised \<open>int byte\<close>, so
  \<open>byte\<close> is the unsigned value of the octet; an empty line is the end of the input,
  where \<open>read\<close> returns 0 or less and the process exits.
\<close>

fun read_packet_loop :: "nat \<Rightarrow> int \<Rightarrow> u8 list \<Rightarrow> u8 list \<Rightarrow> packet_result" where
  "read_packet_loop x bytes_read buf [] =
     (if x < 15
      then \<lparr>ended = Exit 0, printed = ''Read EOF'' @ [newline], frame = buf, unread = []\<rparr>
      else \<lparr>ended = Return (- 1), printed = ''Read too many bytes.'' @ [newline],
             frame = buf, unread = []\<rparr>)"
| "read_packet_loop x bytes_read buf (b # line) =
     (if x < 15
      then
        (let byte = uint b in
         if byte = 0
         then \<lparr>ended = Return (- 1), printed = ''Meter ON.'' @ [newline],
                frame = buf, unread = line\<rparr>
         else
           (let idx = drop_bit 4 byte AND 0xF in
            if idx = 0 \<or> idx = 0xF
            then \<lparr>ended = Return (- 1),
                   printed = ''Read invalid byte 0x'' @ show_hex02 (nat byte) @ [newline],
                   frame = buf, unread = line\<rparr>
            else
              (let buf' = buf[nat (idx - 1) := word_of_int (byte AND 0xF)];
                   bytes_read' = bytes_read + 1
               in if idx = 0xE
                  then
                    (if bytes_read' < 13
                     then \<lparr>ended = Return (- 1),
                            printed = ''Only read '' @ show_dec bytes_read'
                                      @ '' bytes of packet.'' @ [newline],
                            frame = buf', unread = line\<rparr>
                     else \<lparr>ended = Return 0, printed = [], frame = buf', unread = line\<rparr>)
                  else read_packet_loop (x + 1) bytes_read' buf' line)))
      else \<lparr>ended = Return (- 1), printed = ''Read too many bytes.'' @ [newline],
             frame = buf, unread = b # line\<rparr>)"

definition read_packet :: "u8 list \<Rightarrow> u8 list \<Rightarrow> packet_result" where
  "read_packet line buf = read_packet_loop 0 0 (clear_loop 0 buf) line"

text \<open>The position tag of an octet, as \<open>read_packet\<close> computes it.\<close>

definition tag :: "u8 \<Rightarrow> int" where
  "tag b = drop_bit 4 (uint b) AND 0xF"

text \<open>An octet that \<open>read_packet\<close> stores and after which it keeps reading.\<close>

definition inner_byte :: "u8 \<Rightarrow> bool" where
  "inner_byte b \<longleftrightarrow> 1 \<le> tag b \<and> tag b \<le> 13"

text \<open>An octet with a tag between 1 and 14.\<close>

definition valid_byte :: "u8 \<Rightarrow> bool" where
  "valid_byte b \<longleftrightarrow> 1 \<le> tag b \<and> tag b \<le> 14"

subsection \<open>Printing the display number\<close>

text \<open>The branch of \<open>print_display_number\<close> taken for a digit that was found.\<close>

definition print_digit :: "int \<Rightarrow> string" where
  "print_digit val =
     (if val < 10 then show_dec val
      else (if val = 10 then ''L'' else [])
         @ (if val = 11 then '' '' else [])
         @ (if val > 11 then ''?'' else []))"

text \<open>
  \<open>for (n = 1; n < 8; n += 2)\<close>, with the text printed so far as accumulator.  The
  result is the return value and everything printed.
\<close>

function print_display_loop :: "nat \<Rightarrow> u8 list \<Rightarrow> string \<Rightarrow> int \<times> string" where
  "print_display_loop n buf out =
     (if n < 8
      then
        (let out1 = (if buf ! n AND 0x8 \<noteq> 0
                     then (if n = 1 then out @ ''-'' else out @ ''.'')
                     else out);
             val = decode_digit (ucast (buf ! n)) (ucast (buf ! (n + 1)))
         in if val = - 1
            then (- 1, out1 @ ''Unknown digit '' @ show_hex (unat (buf ! n)) @ '' ''
                         @ show_hex (unat (buf ! (n + 1))) @ [newline])
            else print_display_loop (n + 2) buf (out1 @ print_digit val))
      else (0, out))"
  by pat_completeness auto
termination
  by (relation "measure (\<lambda>(n, buf, out). 8 - n)") auto

definition print_display_number :: "u8 list \<Rightarrow> int \<times> string" where
  "print_display_number buf = print_display_loop 1 buf []"

subsection \<open>Attributes\<close>

definition ATTR_UNK_11 :: ulong where "ATTR_UNK_11 = push_bit 0 1"
definition ATTR_AUTO :: ulong where "ATTR_AUTO = push_bit 1 1"
definition ATTR_DC :: ulong where "ATTR_DC = push_bit 2 1"
definition ATTR_AC :: ulong where "ATTR_AC = push_bit 3 1"
definition ATTR_DIODE :: ulong where "ATTR_DIODE = push_bit 4 1"
definition ATTR_KILO :: ulong where "ATTR_KILO = push_bit 5 1"
definition ATTR_NANO :: ulong where "ATTR_NANO = push_bit 6 1"
definition ATTR_MICRO :: ulong where "ATTR_MICRO = push_bit 7 1"
definition ATTR_BEEP :: ulong where "ATTR_BEEP = push_bit 8 1"
definition ATTR_MEGA :: ulong where "ATTR_MEGA = push_bit 9 1"
definition ATTR_PERCENT :: ulong where "ATTR_PERCENT = push_bit 10 1"
definition ATTR_MILI :: ulong where "ATTR_MILI = push_bit 11 1"
definition ATTR_HOLD :: ulong where "ATTR_HOLD = push_bit 12 1"
definition ATTR_REL :: ulong where "ATTR_REL = push_bit 13 1"
definition ATTR_OHMS :: ulong where "ATTR_OHMS = push_bit 14 1"
definition ATTR_FARAD :: ulong where "ATTR_FARAD = push_bit 15 1"
definition ATTR_UNK_D1 :: ulong where "ATTR_UNK_D1 = push_bit 16 1"
definition ATTR_HERTZ :: ulong where "ATTR_HERTZ = push_bit 17 1"
definition ATTR_VOLTS :: ulong where "ATTR_VOLTS = push_bit 18 1"
definition ATTR_AMPS :: ulong where "ATTR_AMPS = push_bit 19 1"
definition ATTR_UNK_E1 :: ulong where "ATTR_UNK_E1 = push_bit 20 1"
definition ATTR_UNK_E2 :: ulong where "ATTR_UNK_E2 = push_bit 21 1"
definition ATTR_DEGC :: ulong where "ATTR_DEGC = push_bit 22 1"
definition ATTR_UNK_E8 :: ulong where "ATTR_UNK_E8 = push_bit 23 1"

text \<open>
  The names, in bit order.  The C array ends with a \<open>NULL\<close> entry that no loop of the
  program reads; it is left out.
\<close>

definition attribute_table :: "string list" where
  "attribute_table =
     [''(unknown 11)'', ''AUTO'', ''DC'', ''AC'',
      ''DIODE'', ''kilo'', ''nano'', ''micro'',
      ''beep'', ''mega'', ''Percent'', ''mili'',
      ''HOLD'', ''REL'', ''Ohms'', ''Farads'',
      ''(unknown 0xD1)'', ''Hertz'', ''Volts'', ''Amps'',
      ''(unknown E1)'', ''(unknown E2)'', ''DegreesC'', ''(unknown E8)'']"

text \<open>
  \<open>for (bit = 0; bit < 24; bit++)\<close> of \<open>decode_attributes\<close>; the counter is called
  \<open>bitno\<close> here, \<open>bit\<close> being the bit test of the library.  \<open>buf[byte]\<close> is
  promoted to \<open>int\<close> before the test, and \<open>1 << bit\<close> is an \<open>int\<close> converted to
  \<open>unsigned long\<close> by the assignment.
\<close>

function decode_attributes_loop :: "nat \<Rightarrow> ulong \<Rightarrow> u8 list \<Rightarrow> ulong" where
  "decode_attributes_loop bitno attributes buf =
     (if bitno < 24
      then
        (let byte = (if bitno < 4 then 0 else bitno div 4 + 0x8);
             attr = bitno mod 4
         in decode_attributes_loop (bitno + 1)
              (if uint (buf ! byte) AND push_bit attr 1 \<noteq> 0
               then attributes OR word_of_int (push_bit bitno 1)
               else attributes)
              buf)
      else attributes)"
  by pat_completeness auto
termination
  by (relation "measure (\<lambda>(bitno, attributes, buf). 24 - bitno)") auto

definition decode_attributes :: "u8 list \<Rightarrow> ulong" where
  "decode_attributes buf = decode_attributes_loop 0 0 buf"

text \<open>The loop \<open>for (n = 0; n < 24; n++)\<close> that prints the names, with the printed text.\<close>

function print_attributes_loop :: "nat \<Rightarrow> ulong \<Rightarrow> string \<Rightarrow> string" where
  "print_attributes_loop n attributes out =
     (if n < 24
      then print_attributes_loop (n + 1) attributes
             (if attributes AND word_of_int (push_bit n 1) \<noteq> 0
              then out @ attribute_table ! n @ '' ''
              else out)
      else out)"
  by pat_completeness auto
termination
  by (relation "measure (\<lambda>(n, attributes, out). 24 - n)") auto

text \<open>
  \<open>print_attributes\<close> of the C source; the suffix keeps the name apart from the Isar
  command of that name.
\<close>

definition print_attributes_c :: "ulong \<Rightarrow> string" where
  "print_attributes_c attributes = print_attributes_loop 0 attributes []"

subsection \<open>The main loop\<close>

text \<open>
  One pass through the body of \<open>while (1)\<close> in \<open>main\<close>: the packet is read; on a
  non-zero return the pass ends (\<open>continue\<close>); otherwise the number is printed, and only
  when that returned 0 the attributes and the end of line follow.
\<close>

definition main_body :: "u8 list \<Rightarrow> u8 list \<Rightarrow> packet_result" where
  "main_body line buf =
     (let r = read_packet line buf in
      case ended r of
        Exit c \<Rightarrow> r
      | Return n \<Rightarrow>
          if n \<noteq> 0 then r
          else
            (let (m, digits) = print_display_number (frame r) in
             if m \<noteq> 0 then r\<lparr>printed := printed r @ digits\<rparr>
             else
               (let attributes = decode_attributes (frame r)
                in r\<lparr>printed := printed r @ digits @ '' ''
                                  @ print_attributes_c attributes @ [newline]\<rparr>)))"

text \<open>
  \<open>while (1)\<close>: the passes follow each other on what is left of the line, with the
  same buffer, until \<open>read_packet\<close> ends the process at end of file.  The result is the
  exit status and everything printed.  Every pass that does not exit consumes at least
  one octet, so the loop over a finite line terminates.
\<close>

function main_while :: "u8 list \<Rightarrow> u8 list \<Rightarrow> int \<times> string" where
  "main_while line buf =
     (let r = main_body line buf in
      case ended r of
        Exit c \<Rightarrow> (c, printed r)
      | Return n \<Rightarrow>
          (let (c, out) = main_while (unread r) (frame r) in (c, printed r @ out)))"
  by pat_completeness auto
termination
proof (relation "measure (\<lambda>(line, buf). length line)")
  show "wf (measure (\<lambda>(line, buf). length line))" by simp
next
  fix line buf :: "u8 list" and r n
  assume r: "r = main_body line buf" and ret: "ended r = Return n"
  have le: "length (unread (read_packet_loop x k b l)) \<le> length l" for x k b l
    by (induction x k b l rule: read_packet_loop.induct)
       (auto simp add: Let_def le_Suc_eq)
  have loop: "ended (read_packet_loop 0 k b l) = Return m \<Longrightarrow>
      length (unread (read_packet_loop 0 k b l)) < length l" for k b l m
  proof (cases l)
    case Nil
    assume "ended (read_packet_loop 0 k b l) = Return m"
    with Nil show ?thesis by simp
  next
    case (Cons c l')
    then show ?thesis
      using le [of 1 "k + 1" _ l'] by (auto simp add: Let_def less_Suc_eq_le)
  qed
  have same: "ended (main_body line buf) = ended (read_packet line buf)"
    "unread (main_body line buf) = unread (read_packet line buf)"
    by (auto simp add: main_body_def Let_def split: control.splits prod.splits)
  from ret r same have "ended (read_packet line buf) = Return n" by simp
  then have "length (unread (read_packet line buf)) < length line"
    unfolding read_packet_def by (rule loop)
  with r same show "((unread r, frame r), line, buf) \<in> measure (\<lambda>(line, buf). length line)"
    by simp
qed

subsection \<open>Auxiliary notions for the statements\<close>

text \<open>The buffer index an octet is stored at, \<open>idx - 1\<close>.\<close>

definition slot :: "u8 \<Rightarrow> nat" where
  "slot b = nat (tag b - 1)"

text \<open>The stores \<open>buf[idx - 1] = byte & 0xF\<close> for a sequence of octets, in order.\<close>

definition store_bytes :: "u8 list \<Rightarrow> u8 list \<Rightarrow> u8 list" where
  "store_bytes bs buf = fold (\<lambda>b buf. buf[slot b := b AND 0xF]) bs buf"

text \<open>
  The packet of the comment at the head of the source, sent for a display of
  \<open>04.71 k ohms\<close>; its first octet (\<open>1x\<close>) is absent.
\<close>

definition example_packet :: "u8 list" where
  "example_packet =
     [0x27, 0x3D, 0x42, 0x57, 0x69, 0x75, 0x80, 0x95, 0xA2, 0xB0, 0xC4, 0xD0, 0xE8]"

definition example_frame :: "u8 list" where
  "example_frame = [0, 0x7, 0xD, 0x2, 0x7, 0x9, 0x5, 0x0, 0x5, 0x2, 0x0, 0x4, 0x0, 0x8]"

text \<open>A buffer as \<open>main\<close> declares it, fifteen octets, here with stale contents.\<close>

definition stale_buf :: "u8 list" where
  "stale_buf = replicate 15 0xFF"

text \<open>
  The mark \<open>print_display_number\<close> prints in front of the digit of the pair at \<open>n\<close>,
  the value \<open>decode_digit\<close> gives for that pair, and the line printed for a pair that
  decodes to nothing.
\<close>

definition pair_mark :: "u8 list \<Rightarrow> nat \<Rightarrow> string" where
  "pair_mark buf n =
     (if buf ! n AND 0x8 \<noteq> 0 then (if n = 1 then ''-'' else ''.'') else [])"

definition pair_value :: "u8 list \<Rightarrow> nat \<Rightarrow> int" where
  "pair_value buf n = decode_digit (ucast (buf ! n)) (ucast (buf ! (n + 1)))"

definition unknown_digit_message :: "u8 list \<Rightarrow> nat \<Rightarrow> string" where
  "unknown_digit_message buf n =
     ''Unknown digit '' @ show_hex (unat (buf ! n)) @ '' ''
       @ show_hex (unat (buf ! (n + 1))) @ [newline]"



text \<open>
  The example buffer with the fourth pair changed to \<open>8 1\<close>: bit 3 set, and the
  segment code \<open>0x01\<close>, which is not in the table.
\<close>

definition late_unknown_frame :: "u8 list" where
  "late_unknown_frame = [0, 0x7, 0xD, 0x2, 0x7, 0x9, 0x5, 0x8, 0x1, 0x2, 0x0, 0x4, 0x0, 0x8]"

text \<open>
  Three packets for the framing rules: one that starts with a tag-14 octet, one in which
  the tag 2 comes twice with different data, one made of twelve octets with tag 2 and a
  closing tag-14 octet.
\<close>

definition early_terminal_packet :: "u8 list" where
  "early_terminal_packet =
     [0xE0, 0x10, 0x20, 0x30, 0x40, 0x50, 0x60, 0x70, 0x80, 0x90, 0xA0, 0xB0, 0xC0, 0xE0]"

definition overwritten_tag_packet :: "u8 list" where
  "overwritten_tag_packet =
     [0x20, 0x21, 0x30, 0x40, 0x50, 0x60, 0x70, 0x80, 0x90, 0xA0, 0xB0, 0xC0, 0xD0, 0xE0]"


text \<open>The buffer index that \<open>decode_attributes\<close> reads for bit \<open>n\<close> of its value.\<close>

definition attribute_source :: "nat \<Rightarrow> nat" where
  "attribute_source n = (if n < 4 then 0 else n div 4 + 8)"

section \<open>Digit decoding\<close>

declare decode_digit_loop.simps [simp del]
declare show_hex.simps [simp del]
declare show_nat.simps [simp del]
declare clear_loop.simps [simp del]
declare print_display_loop.simps [simp del]
declare decode_attributes_loop.simps [simp del]
declare print_attributes_loop.simps [simp del]
declare main_while.simps [simp del]

lemma decode_digit_loop_range:
  "decode_digit_loop n segs = - 1
   \<or> (int n \<le> decode_digit_loop n segs \<and> decode_digit_loop n segs \<le> 11)"
proof (induction n segs rule: decode_digit_loop.induct)
  case (1 n segs)
  show ?case
  proof (cases "n < 12")
    case False
    then show ?thesis by (simp add: decode_digit_loop.simps [of n segs])
  next
    case True
    show ?thesis
    proof (cases "lcd_segments ! n = segs")
      case hit: True
      with True show ?thesis by (simp add: decode_digit_loop.simps [of n segs])
    next
      case miss: False
      from "1.IH" [OF True miss] True miss show ?thesis
        by (auto simp add: decode_digit_loop.simps [of n segs])
    qed
  qed
qed

lemma decode_digit_loop_miss:
  "\<forall>k. n \<le> k \<and> k < 12 \<longrightarrow> lcd_segments ! k \<noteq> segs \<Longrightarrow> decode_digit_loop n segs = - 1"
proof (induction n segs rule: decode_digit_loop.induct)
  case (1 n segs)
  show ?case
  proof (cases "n < 12")
    case False
    then show ?thesis by (simp add: decode_digit_loop.simps [of n segs])
  next
    case True
    with "1.prems" have miss: "lcd_segments ! n \<noteq> segs" by auto
    from "1.prems" have "\<forall>k. n + 1 \<le> k \<and> k < 12 \<longrightarrow> lcd_segments ! k \<noteq> segs" by auto
    from "1.IH" [OF True miss this] True miss show ?thesis
      by (simp add: decode_digit_loop.simps [of n segs])
  qed
qed

lemma decode_digit_loop_hit:
  "n \<le> k \<Longrightarrow> k < 12 \<Longrightarrow> lcd_segments ! k = segs \<Longrightarrow>
   \<forall>j. n \<le> j \<and> j < k \<longrightarrow> lcd_segments ! j \<noteq> segs \<Longrightarrow> decode_digit_loop n segs = int k"
proof (induction n segs rule: decode_digit_loop.induct)
  case (1 n segs)
  from "1.prems" have lt: "n < 12" by simp
  show ?case
  proof (cases "lcd_segments ! n = segs")
    case True
    with "1.prems" have "n = k" by (metis le_neq_implies_less order_refl)
    with True lt show ?thesis by (subst decode_digit_loop.simps) simp
  next
    case False
    with "1.prems" have "n \<noteq> k" by auto
    with "1.prems" have a: "n + 1 \<le> k" by simp
    from "1.prems" have b: "\<forall>j. n + 1 \<le> j \<and> j < k \<longrightarrow> lcd_segments ! j \<noteq> segs" by auto
    from "1.IH" [OF lt False a "1.prems"(2) "1.prems"(3) b] lt False show ?thesis
      by (simp add: decode_digit_loop.simps [of n segs])
  qed
qed

lemma lcd_segments_distinct: "distinct lcd_segments"
  by (simp add: lcd_segments_def)

lemma lcd_segments_length: "length lcd_segments = 12"
  by (simp add: lcd_segments_def)

lemma decode_digit_loop_entry:
  assumes "k < 12" "lcd_segments ! k = segs"
  shows "decode_digit_loop 0 segs = int k"
proof -
  have "\<forall>j. 0 \<le> j \<and> j < k \<longrightarrow> lcd_segments ! j \<noteq> segs"
  proof (intro allI impI)
    fix j assume "0 \<le> j \<and> j < k"
    with assms have "j < length lcd_segments" "k < length lcd_segments" "j \<noteq> k"
      by (simp_all add: lcd_segments_length)
    with lcd_segments_distinct assms show "lcd_segments ! j \<noteq> segs"
      by (auto simp add: nth_eq_iff_index_eq)
  qed
  with assms show ?thesis by (intro decode_digit_loop_hit) simp_all
qed

lemma decode_digit_loop_absent:
  assumes "segs \<notin> set lcd_segments"
  shows "decode_digit_loop 0 segs = - 1"
proof -
  have "\<forall>k. 0 \<le> k \<and> k < 12 \<longrightarrow> lcd_segments ! k \<noteq> segs"
    using assms by (metis lcd_segments_length nth_mem)
  then show ?thesis by (rule decode_digit_loop_miss)
qed

lemma decode_digit_bounds:
  "- 1 \<le> decode_digit byte1 byte2 \<and> decode_digit byte1 byte2 \<le> 11"
  using decode_digit_loop_range [of 0 "segment_code byte1 byte2"]
  by (auto simp add: decode_digit_def)

text \<open>
  C3.  \<open>decode_digit\<close> searches the table for the segment code
  \<open>((byte1 & 0x7) << 4) | byte2\<close>.  The twelve codes of the table give the symbols 0 to
  11 in table order, \<open>decode_digit(0x7, 0xD)\<close> is 0 and \<open>decode_digit(0x0, 0x5)\<close> is 1;
  whenever the segment code of the arguments is the entry \<open>k\<close> of the table the result is
  \<open>k\<close>, and whenever it is no entry of the table the result is \<open>-1\<close>, the invalid
  symbol.
\<close>

theorem decode_digit_table:
  "decode_digit 0x7 0xD = 0 \<and> decode_digit 0x0 0x5 = 1 \<and> decode_digit 0x5 0xB = 2
   \<and> decode_digit 0x1 0xF = 3 \<and> decode_digit 0x2 0x7 = 4 \<and> decode_digit 0x3 0xE = 5
   \<and> decode_digit 0x7 0xE = 6 \<and> decode_digit 0x1 0x5 = 7 \<and> decode_digit 0x7 0xF = 8
   \<and> decode_digit 0x3 0xF = 9 \<and> decode_digit 0x6 0x8 = 10 \<and> decode_digit 0x0 0x0 = 11
   \<and> decode_digit byte1 byte2 = decode_digit_loop 0 (sint (push_bit 4 (byte1 AND 0x7) OR byte2))
   \<and> (\<forall>k < 12. segment_code byte1 byte2 = lcd_segments ! k
         \<longrightarrow> decode_digit byte1 byte2 = int k)
   \<and> (segment_code byte1 byte2 \<notin> set lcd_segments \<longrightarrow> decode_digit byte1 byte2 = - 1)"
proof -
  have fixed: "decode_digit 0x7 0xD = 0 \<and> decode_digit 0x0 0x5 = 1 \<and> decode_digit 0x5 0xB = 2
   \<and> decode_digit 0x1 0xF = 3 \<and> decode_digit 0x2 0x7 = 4 \<and> decode_digit 0x3 0xE = 5
   \<and> decode_digit 0x7 0xE = 6 \<and> decode_digit 0x1 0x5 = 7 \<and> decode_digit 0x7 0xF = 8
   \<and> decode_digit 0x3 0xF = 9 \<and> decode_digit 0x6 0x8 = 10 \<and> decode_digit 0x0 0x0 = 11"
    by code_simp
  have code: "decode_digit byte1 byte2
      = decode_digit_loop 0 (sint (push_bit 4 (byte1 AND 0x7) OR byte2))"
    by (simp add: decode_digit_def segment_code_def)
  have hit: "\<forall>k < 12. segment_code byte1 byte2 = lcd_segments ! k
      \<longrightarrow> decode_digit byte1 byte2 = int k"
    by (simp add: decode_digit_def decode_digit_loop_entry)
  have miss: "segment_code byte1 byte2 \<notin> set lcd_segments \<longrightarrow> decode_digit byte1 byte2 = - 1"
    by (simp add: decode_digit_def decode_digit_loop_absent)
  from fixed code hit miss show ?thesis by blast
qed

theorem decode_digit_table_witness:
  "(4::nat) < 12 \<and> segment_code 0x2 0x7 = lcd_segments ! 4 \<and> decode_digit 0x2 0x7 = int 4
   \<and> segment_code 0x0 0x8 \<notin> set lcd_segments \<and> decode_digit 0x0 0x8 = - 1"
proof -
  have h1: "segment_code 0x2 0x7 = lcd_segments ! 4" by code_simp
  have h2: "segment_code 0x0 0x8 \<notin> set lcd_segments" by code_simp
  from decode_digit_table [of 2 7] h1 have c1: "decode_digit 0x2 0x7 = int 4" by simp
  from decode_digit_table [of 0 8] h2 have c2: "decode_digit 0x0 0x8 = - 1" by blast
  from h1 h2 c1 c2 show ?thesis by simp
qed

subsection \<open>The branch for values above 11\<close>

lemma hex_digit_mem: "d < 16 \<Longrightarrow> hex_digit d \<in> set ''0123456789ABCDEF''"
  unfolding hex_digit_def by (rule nth_mem) simp

lemma dec_digit_mem: "d < 10 \<Longrightarrow> dec_digit d \<in> set ''0123456789''"
  unfolding dec_digit_def by (rule nth_mem) simp

lemma show_hex_chars: "set (show_hex n) \<subseteq> set ''0123456789ABCDEF''"
proof (induction n rule: show_hex.induct)
  case (1 n)
  show ?case
  proof (cases "n < 16")
    case True
    with hex_digit_mem [of n] show ?thesis by (subst show_hex.simps) simp
  next
    case False
    have "n mod 16 < 16" by simp
    from hex_digit_mem [OF this] "1.IH" [OF False] False show ?thesis
      by (subst show_hex.simps) simp
  qed
qed

lemma show_hex_no_query: "CHR ''?'' \<notin> set (show_hex n)"
  using show_hex_chars [of n] by auto

lemma print_digit_no_query:
  assumes "0 \<le> val" "val \<le> 11"
  shows "CHR ''?'' \<notin> set (print_digit val)"
proof (cases "val < 10")
  case True
  with assms have "nat val < 10" by simp
  from dec_digit_mem [OF this] have "dec_digit (nat val) \<noteq> CHR ''?''" by auto
  with True assms \<open>nat val < 10\<close> show ?thesis
    by (simp add: print_digit_def show_dec_def show_nat.simps [of "nat val"])
next
  case False
  with assms show ?thesis by (simp add: print_digit_def)
qed

lemma print_display_loop_no_query:
  "CHR ''?'' \<notin> set out \<Longrightarrow> CHR ''?'' \<notin> set (snd (print_display_loop n buf out))"
proof (induction n buf out rule: print_display_loop.induct)
  case (1 n buf out)
  let ?out1 = "if buf ! n AND 0x8 \<noteq> 0
               then (if n = 1 then out @ ''-'' else out @ ''.'')
               else out"
  let ?val = "decode_digit (ucast (buf ! n)) (ucast (buf ! (n + 1)))"
  from "1.prems" have out1: "CHR ''?'' \<notin> set ?out1" by simp
  show ?case
  proof (cases "n < 8")
    case False
    with "1.prems" show ?thesis by (subst print_display_loop.simps) simp
  next
    case True
    show ?thesis
    proof (cases "?val = - 1")
      case inv: True
      with True out1 show ?thesis
        by (subst print_display_loop.simps)
           (simp add: Let_def show_hex_no_query newline_def)
    next
      case ok: False
      with decode_digit_bounds [of "ucast (buf ! n)" "ucast (buf ! (n + 1))"]
      have "0 \<le> ?val" "?val \<le> 11" by simp_all
      then have "CHR ''?'' \<notin> set (print_digit ?val)" by (rule print_digit_no_query)
      with out1 have "CHR ''?'' \<notin> set (?out1 @ print_digit ?val)" by simp
      from "1.IH" [OF True refl refl ok this] True ok show ?thesis
        by (subst print_display_loop.simps) (simp add: Let_def)
    qed
  qed
qed

text \<open>
  C10.  For all arguments \<open>decode_digit\<close> returns \<open>-1\<close> or one of the twelve symbols
  0 to 11.  So the test \<open>val > 11\<close> in \<open>print_display_number\<close> is false for every pair
  of the buffer, and the \<open>?\<close> of that branch never occurs in what
  \<open>print_display_number\<close> prints.
\<close>

theorem decode_digit_range:
  "- 1 \<le> decode_digit byte1 byte2 \<and> decode_digit byte1 byte2 \<le> 11
   \<and> \<not> 11 < decode_digit (ucast (buf ! n)) (ucast (buf ! (n + 1)))
   \<and> CHR ''?'' \<notin> set (snd (print_display_number buf))"
proof -
  have "CHR ''?'' \<notin> set (snd (print_display_number buf))"
    unfolding print_display_number_def by (rule print_display_loop_no_query) simp
  with decode_digit_bounds [of byte1 byte2]
    decode_digit_bounds [of "ucast (buf ! n)" "ucast (buf ! (n + 1))"]
  show ?thesis by simp
qed

section \<open>Printing the display number\<close>

lemma print_display_loop_unfold:
  "n < 8 \<Longrightarrow> m = n + 2 \<Longrightarrow> print_display_loop n buf out =
     (if pair_value buf n = - 1
      then (- 1, out @ pair_mark buf n @ unknown_digit_message buf n)
      else print_display_loop m buf (out @ pair_mark buf n @ print_digit (pair_value buf n)))"
  by (subst print_display_loop.simps)
     (simp add: Let_def pair_value_def pair_mark_def unknown_digit_message_def)

lemma print_display_loop_done: "\<not> n < 8 \<Longrightarrow> print_display_loop n buf out = (0, out)"
  by (subst print_display_loop.simps) simp

lemma print_display_loop_1:
  "print_display_loop 1 buf out =
     (if pair_value buf 1 = - 1
      then (- 1, out @ pair_mark buf 1 @ unknown_digit_message buf 1)
      else print_display_loop 3 buf (out @ pair_mark buf 1 @ print_digit (pair_value buf 1)))"
  using print_display_loop_unfold [of 1 3 buf out] by simp

lemma print_display_loop_3:
  "print_display_loop 3 buf out =
     (if pair_value buf 3 = - 1
      then (- 1, out @ pair_mark buf 3 @ unknown_digit_message buf 3)
      else print_display_loop 5 buf (out @ pair_mark buf 3 @ print_digit (pair_value buf 3)))"
  using print_display_loop_unfold [of 3 5 buf out] by simp

lemma print_display_loop_5:
  "print_display_loop 5 buf out =
     (if pair_value buf 5 = - 1
      then (- 1, out @ pair_mark buf 5 @ unknown_digit_message buf 5)
      else print_display_loop 7 buf (out @ pair_mark buf 5 @ print_digit (pair_value buf 5)))"
  using print_display_loop_unfold [of 5 7 buf out] by simp

lemma print_display_loop_7:
  "print_display_loop 7 buf out =
     (if pair_value buf 7 = - 1
      then (- 1, out @ pair_mark buf 7 @ unknown_digit_message buf 7)
      else (0, out @ pair_mark buf 7 @ print_digit (pair_value buf 7)))"
  using print_display_loop_unfold [of 7 9 buf out] print_display_loop_done [of 9 buf]
  by simp

lemmas print_display_unrolled =
  print_display_number_def print_display_loop_1 print_display_loop_3
  print_display_loop_5 print_display_loop_7

lemma print_display_number_all_valid:
  assumes "pair_value buf 1 \<noteq> - 1" "pair_value buf 3 \<noteq> - 1"
    "pair_value buf 5 \<noteq> - 1" "pair_value buf 7 \<noteq> - 1"
  shows "print_display_number buf =
     (0, pair_mark buf 1 @ print_digit (pair_value buf 1)
       @ pair_mark buf 3 @ print_digit (pair_value buf 3)
       @ pair_mark buf 5 @ print_digit (pair_value buf 5)
       @ pair_mark buf 7 @ print_digit (pair_value buf 7))"
  using assms
  by (simp only: print_display_unrolled if_False append_Nil append_assoc)



lemma segment_code_flip: "segment_code (byte1 XOR 0x8) byte2 = segment_code byte1 byte2"
proof -
  have "(byte1 XOR 0x8) AND 0x7 = byte1 AND (0x7 :: u32)"
    by (simp add: bit.conj_xor_distrib2)
  then show ?thesis by (simp add: segment_code_def)
qed






lemma pair_value_flip:
  assumes "n < length buf"
  shows "pair_value (buf[n := buf ! n XOR 0x8]) n = pair_value buf n"
proof -
  have "(ucast (buf ! n XOR 0x8) :: u32) = ucast (buf ! n) XOR 0x8"
    by (simp add: unsigned_xor_eq)
  with assms show ?thesis
    by (simp add: pair_value_def decode_digit_def segment_code_flip)
qed

text \<open>
  C6, as the code has it.  \<open>print_display_number\<close> takes the four pairs in order.  For
  every pair it comes to, it first prints a mark when bit 3 of the pair's first nibble is
  set, the minus sign for the first pair and a decimal point for the pairs 2 to 4, and
  nothing when the bit is clear; then it prints the digit of the pair, or, when the pair
  decodes to no symbol, the \<open>Unknown digit\<close> line, after which it stops, so that the
  pairs behind an undecodable one print neither mark nor digit.  The decimal point so
  stands in front of the digit of its own pair, behind the digit of the pair before.  Bit
  3 has no part in the digit: flipping it leaves the decoded symbol as it was.
\<close>

theorem print_display_number_marks:
  "print_display_number buf =
     (if pair_value buf 1 = - 1
      then (- 1, (if buf ! 1 AND 0x8 \<noteq> 0 then ''-'' else []) @ unknown_digit_message buf 1)
      else if pair_value buf 3 = - 1
      then (- 1, (if buf ! 1 AND 0x8 \<noteq> 0 then ''-'' else []) @ print_digit (pair_value buf 1)
                 @ (if buf ! 3 AND 0x8 \<noteq> 0 then ''.'' else []) @ unknown_digit_message buf 3)
      else if pair_value buf 5 = - 1
      then (- 1, (if buf ! 1 AND 0x8 \<noteq> 0 then ''-'' else []) @ print_digit (pair_value buf 1)
                 @ (if buf ! 3 AND 0x8 \<noteq> 0 then ''.'' else []) @ print_digit (pair_value buf 3)
                 @ (if buf ! 5 AND 0x8 \<noteq> 0 then ''.'' else []) @ unknown_digit_message buf 5)
      else if pair_value buf 7 = - 1
      then (- 1, (if buf ! 1 AND 0x8 \<noteq> 0 then ''-'' else []) @ print_digit (pair_value buf 1)
                 @ (if buf ! 3 AND 0x8 \<noteq> 0 then ''.'' else []) @ print_digit (pair_value buf 3)
                 @ (if buf ! 5 AND 0x8 \<noteq> 0 then ''.'' else []) @ print_digit (pair_value buf 5)
                 @ (if buf ! 7 AND 0x8 \<noteq> 0 then ''.'' else []) @ unknown_digit_message buf 7)
      else (0, (if buf ! 1 AND 0x8 \<noteq> 0 then ''-'' else []) @ print_digit (pair_value buf 1)
              @ (if buf ! 3 AND 0x8 \<noteq> 0 then ''.'' else []) @ print_digit (pair_value buf 3)
              @ (if buf ! 5 AND 0x8 \<noteq> 0 then ''.'' else []) @ print_digit (pair_value buf 5)
              @ (if buf ! 7 AND 0x8 \<noteq> 0 then ''.'' else []) @ print_digit (pair_value buf 7)))
   \<and> decode_digit (byte1 XOR 0x8) byte2 = decode_digit byte1 byte2
   \<and> (n < length buf \<longrightarrow> pair_value (buf[n := buf ! n XOR 0x8]) n = pair_value buf n)"
proof -
  have marks: "pair_mark buf 1 = (if buf ! 1 AND 0x8 \<noteq> 0 then ''-'' else [])"
    "pair_mark buf 3 = (if buf ! 3 AND 0x8 \<noteq> 0 then ''.'' else [])"
    "pair_mark buf 5 = (if buf ! 5 AND 0x8 \<noteq> 0 then ''.'' else [])"
    "pair_mark buf 7 = (if buf ! 7 AND 0x8 \<noteq> 0 then ''.'' else [])"
    by (simp_all add: pair_mark_def)
  have "print_display_number buf =
     (if pair_value buf 1 = - 1
      then (- 1, pair_mark buf 1 @ unknown_digit_message buf 1)
      else if pair_value buf 3 = - 1
      then (- 1, pair_mark buf 1 @ print_digit (pair_value buf 1)
                 @ pair_mark buf 3 @ unknown_digit_message buf 3)
      else if pair_value buf 5 = - 1
      then (- 1, pair_mark buf 1 @ print_digit (pair_value buf 1)
                 @ pair_mark buf 3 @ print_digit (pair_value buf 3)
                 @ pair_mark buf 5 @ unknown_digit_message buf 5)
      else if pair_value buf 7 = - 1
      then (- 1, pair_mark buf 1 @ print_digit (pair_value buf 1)
                 @ pair_mark buf 3 @ print_digit (pair_value buf 3)
                 @ pair_mark buf 5 @ print_digit (pair_value buf 5)
                 @ pair_mark buf 7 @ unknown_digit_message buf 7)
      else (0, pair_mark buf 1 @ print_digit (pair_value buf 1)
              @ pair_mark buf 3 @ print_digit (pair_value buf 3)
              @ pair_mark buf 5 @ print_digit (pair_value buf 5)
              @ pair_mark buf 7 @ print_digit (pair_value buf 7)))"
    by (simp only: print_display_unrolled append_Nil append_assoc)
  then have shape: "print_display_number buf =
     (if pair_value buf 1 = - 1
      then (- 1, (if buf ! 1 AND 0x8 \<noteq> 0 then ''-'' else []) @ unknown_digit_message buf 1)
      else if pair_value buf 3 = - 1
      then (- 1, (if buf ! 1 AND 0x8 \<noteq> 0 then ''-'' else []) @ print_digit (pair_value buf 1)
                 @ (if buf ! 3 AND 0x8 \<noteq> 0 then ''.'' else []) @ unknown_digit_message buf 3)
      else if pair_value buf 5 = - 1
      then (- 1, (if buf ! 1 AND 0x8 \<noteq> 0 then ''-'' else []) @ print_digit (pair_value buf 1)
                 @ (if buf ! 3 AND 0x8 \<noteq> 0 then ''.'' else []) @ print_digit (pair_value buf 3)
                 @ (if buf ! 5 AND 0x8 \<noteq> 0 then ''.'' else []) @ unknown_digit_message buf 5)
      else if pair_value buf 7 = - 1
      then (- 1, (if buf ! 1 AND 0x8 \<noteq> 0 then ''-'' else []) @ print_digit (pair_value buf 1)
                 @ (if buf ! 3 AND 0x8 \<noteq> 0 then ''.'' else []) @ print_digit (pair_value buf 3)
                 @ (if buf ! 5 AND 0x8 \<noteq> 0 then ''.'' else []) @ print_digit (pair_value buf 5)
                 @ (if buf ! 7 AND 0x8 \<noteq> 0 then ''.'' else []) @ unknown_digit_message buf 7)
      else (0, (if buf ! 1 AND 0x8 \<noteq> 0 then ''-'' else []) @ print_digit (pair_value buf 1)
              @ (if buf ! 3 AND 0x8 \<noteq> 0 then ''.'' else []) @ print_digit (pair_value buf 3)
              @ (if buf ! 5 AND 0x8 \<noteq> 0 then ''.'' else []) @ print_digit (pair_value buf 5)
              @ (if buf ! 7 AND 0x8 \<noteq> 0 then ''.'' else []) @ print_digit (pair_value buf 7)))"
    unfolding marks .
  have digit: "decode_digit (byte1 XOR 0x8) byte2 = decode_digit byte1 byte2"
    by (simp add: decode_digit_def segment_code_flip)
  have pair: "n < length buf \<longrightarrow> pair_value (buf[n := buf ! n XOR 0x8]) n = pair_value buf n"
    by (simp add: pair_value_flip)
  from shape digit pair show ?thesis by (intro conjI)
qed

theorem print_display_number_marks_witness:
  "5 < length example_frame
   \<and> pair_value (example_frame[5 := example_frame ! 5 XOR 0x8]) 5 = pair_value example_frame 5
   \<and> print_display_number example_frame = (0, ''04.71'')
   \<and> print_display_number late_unknown_frame
       = (- 1, ''04.7.Unknown digit 8 1'' @ [newline])"
proof -
  have len: "5 < length example_frame" by code_simp
  have all_decode: "
     (if pair_value example_frame 1 = - 1
      then (- 1, (if example_frame ! 1 AND 0x8 \<noteq> 0 then ''-'' else []) @ unknown_digit_message example_frame 1)
      else if pair_value example_frame 3 = - 1
      then (- 1, (if example_frame ! 1 AND 0x8 \<noteq> 0 then ''-'' else []) @ print_digit (pair_value example_frame 1)
                 @ (if example_frame ! 3 AND 0x8 \<noteq> 0 then ''.'' else []) @ unknown_digit_message example_frame 3)
      else if pair_value example_frame 5 = - 1
      then (- 1, (if example_frame ! 1 AND 0x8 \<noteq> 0 then ''-'' else []) @ print_digit (pair_value example_frame 1)
                 @ (if example_frame ! 3 AND 0x8 \<noteq> 0 then ''.'' else []) @ print_digit (pair_value example_frame 3)
                 @ (if example_frame ! 5 AND 0x8 \<noteq> 0 then ''.'' else []) @ unknown_digit_message example_frame 5)
      else if pair_value example_frame 7 = - 1
      then (- 1, (if example_frame ! 1 AND 0x8 \<noteq> 0 then ''-'' else []) @ print_digit (pair_value example_frame 1)
                 @ (if example_frame ! 3 AND 0x8 \<noteq> 0 then ''.'' else []) @ print_digit (pair_value example_frame 3)
                 @ (if example_frame ! 5 AND 0x8 \<noteq> 0 then ''.'' else []) @ print_digit (pair_value example_frame 5)
                 @ (if example_frame ! 7 AND 0x8 \<noteq> 0 then ''.'' else []) @ unknown_digit_message example_frame 7)
      else (0, (if example_frame ! 1 AND 0x8 \<noteq> 0 then ''-'' else []) @ print_digit (pair_value example_frame 1)
              @ (if example_frame ! 3 AND 0x8 \<noteq> 0 then ''.'' else []) @ print_digit (pair_value example_frame 3)
              @ (if example_frame ! 5 AND 0x8 \<noteq> 0 then ''.'' else []) @ print_digit (pair_value example_frame 5)
              @ (if example_frame ! 7 AND 0x8 \<noteq> 0 then ''.'' else []) @ print_digit (pair_value example_frame 7)))
      = (0 :: int, ''04.71'')"
    by code_simp
  have last_unknown: "
     (if pair_value late_unknown_frame 1 = - 1
      then (- 1, (if late_unknown_frame ! 1 AND 0x8 \<noteq> 0 then ''-'' else []) @ unknown_digit_message late_unknown_frame 1)
      else if pair_value late_unknown_frame 3 = - 1
      then (- 1, (if late_unknown_frame ! 1 AND 0x8 \<noteq> 0 then ''-'' else []) @ print_digit (pair_value late_unknown_frame 1)
                 @ (if late_unknown_frame ! 3 AND 0x8 \<noteq> 0 then ''.'' else []) @ unknown_digit_message late_unknown_frame 3)
      else if pair_value late_unknown_frame 5 = - 1
      then (- 1, (if late_unknown_frame ! 1 AND 0x8 \<noteq> 0 then ''-'' else []) @ print_digit (pair_value late_unknown_frame 1)
                 @ (if late_unknown_frame ! 3 AND 0x8 \<noteq> 0 then ''.'' else []) @ print_digit (pair_value late_unknown_frame 3)
                 @ (if late_unknown_frame ! 5 AND 0x8 \<noteq> 0 then ''.'' else []) @ unknown_digit_message late_unknown_frame 5)
      else if pair_value late_unknown_frame 7 = - 1
      then (- 1, (if late_unknown_frame ! 1 AND 0x8 \<noteq> 0 then ''-'' else []) @ print_digit (pair_value late_unknown_frame 1)
                 @ (if late_unknown_frame ! 3 AND 0x8 \<noteq> 0 then ''.'' else []) @ print_digit (pair_value late_unknown_frame 3)
                 @ (if late_unknown_frame ! 5 AND 0x8 \<noteq> 0 then ''.'' else []) @ print_digit (pair_value late_unknown_frame 5)
                 @ (if late_unknown_frame ! 7 AND 0x8 \<noteq> 0 then ''.'' else []) @ unknown_digit_message late_unknown_frame 7)
      else (0, (if late_unknown_frame ! 1 AND 0x8 \<noteq> 0 then ''-'' else []) @ print_digit (pair_value late_unknown_frame 1)
              @ (if late_unknown_frame ! 3 AND 0x8 \<noteq> 0 then ''.'' else []) @ print_digit (pair_value late_unknown_frame 3)
              @ (if late_unknown_frame ! 5 AND 0x8 \<noteq> 0 then ''.'' else []) @ print_digit (pair_value late_unknown_frame 5)
              @ (if late_unknown_frame ! 7 AND 0x8 \<noteq> 0 then ''.'' else []) @ print_digit (pair_value late_unknown_frame 7)))
      = (- 1 :: int, ''04.7.Unknown digit 8 1'' @ [newline])"
    by code_simp
  note first = print_display_number_marks [of example_frame 0 0 5]
  note second = print_display_number_marks [of late_unknown_frame 0 0 5]
  from first len
  have "pair_value (example_frame[5 := example_frame ! 5 XOR 0x8]) 5 = pair_value example_frame 5"
    by blast
  moreover from first have "print_display_number example_frame = (0, ''04.71'')"
    unfolding all_decode by (rule conjunct1)
  moreover from second
  have "print_display_number late_unknown_frame = (- 1, ''04.7.Unknown digit 8 1'' @ [newline])"
    unfolding last_unknown by (rule conjunct1)
  ultimately show ?thesis using len by blast
qed

text \<open>
  The claim as written puts the decimal point after the digit of the pair whose bit is
  set.  In the packet of the source's own example the bit is set on the third pair, whose
  digit is 7, and the text printed is \<open>04.71\<close>, with the point in front of the 7.
\<close>

theorem decimal_point_before_digit:
  "example_frame ! 5 AND 0x8 \<noteq> 0 \<and> pair_value example_frame 5 = 7
   \<and> print_display_number example_frame = (0, ''04.71'')
   \<and> print_display_number example_frame \<noteq> (0, ''047.1'')"
  by code_simp




section \<open>Reading a packet\<close>

lemma low_nibble_word: "word_of_int (uint b AND 0xF) = (b AND 0xF :: u8)"
  by (simp add: of_int_and_eq)

lemma clear_loop_from:
  "x \<le> 14 \<Longrightarrow> 14 \<le> length buf \<Longrightarrow>
   clear_loop x buf = take x buf @ replicate (14 - x) 0 @ drop 14 buf"
proof (induction x buf rule: clear_loop.induct)
  case (1 x buf)
  show ?case
  proof (cases "x < 14")
    case False
    with "1.prems" have "x = 14" by simp
    then show ?thesis by (subst clear_loop.simps) simp
  next
    case True
    with "1.prems" have len: "x < length buf" by simp
    from True have rep: "replicate (14 - x) (0::u8) = 0 # replicate (14 - (x + 1)) 0"
      by (cases "14 - x") (simp_all add: Suc_diff_Suc)
    from True "1.prems" have "clear_loop (x + 1) (buf[x := 0]) =
        take (x + 1) (buf[x := 0]) @ replicate (14 - (x + 1)) 0 @ drop 14 (buf[x := 0])"
      by (intro "1.IH") simp_all
    also from len True have "\<dots> = take x buf @ replicate (14 - x) 0 @ drop 14 buf"
      by (simp add: rep take_Suc_conv_app_nth)
    finally show ?thesis using True by (subst clear_loop.simps) simp
  qed
qed

lemma clear_loop_zero:
  "14 \<le> length buf \<Longrightarrow> clear_loop 0 buf = replicate 14 0 @ drop 14 buf"
  by (simp add: clear_loop_from)

lemma terminal_step:
  "tag t = 14 \<Longrightarrow> x < 15 \<Longrightarrow>
   read_packet_loop x k buf (t # l) =
     (if k + 1 < 13
      then \<lparr>ended = Return (- 1),
             printed = ''Only read '' @ show_dec (k + 1) @ '' bytes of packet.'' @ [newline],
             frame = buf[slot t := t AND 0xF], unread = l\<rparr>
      else \<lparr>ended = Return 0, printed = [], frame = buf[slot t := t AND 0xF], unread = l\<rparr>)"
  by (auto simp add: tag_def slot_def Let_def low_nibble_word)


lemma overrun_step:
  "read_packet_loop 15 k buf l =
     \<lparr>ended = Return (- 1), printed = ''Read too many bytes.'' @ [newline],
       frame = buf, unread = l\<rparr>"
  by (cases l) simp_all

lemma inner_step:
  "inner_byte b \<Longrightarrow> x < 15 \<Longrightarrow>
   read_packet_loop x k buf (b # l) =
     read_packet_loop (x + 1) (k + 1) (buf[slot b := b AND 0xF]) l"
  by (auto simp add: inner_byte_def tag_def slot_def Let_def low_nibble_word)

lemma tag_range: "0 \<le> tag b \<and> tag b \<le> 15"
  by (simp add: tag_def)

lemma tag_cases:
  obtains "tag b = 0" | "inner_byte b" | "tag b = 14" | "tag b = 15"
  using tag_range [of b] unfolding inner_byte_def by arith

lemma outer_step:
  assumes "x < 15" "tag b = 0 \<or> tag b = 15"
  shows "ended (read_packet_loop x k buf (b # l)) = Return (- 1)
     \<and> unread (read_packet_loop x k buf (b # l)) = l"
  using assms by (auto simp add: tag_def Let_def)

lemma read_packet_loop_cases:
  assumes "x < 15"
  shows "inner_byte b \<and> read_packet_loop x k buf (b # l) =
           read_packet_loop (x + 1) (k + 1) (buf[slot b := b AND 0xF]) l
     \<or> \<not> inner_byte b \<and> unread (read_packet_loop x k buf (b # l)) = l
         \<and> (ended (read_packet_loop x k buf (b # l)) = Return 0 \<longrightarrow> tag b = 14 \<and> 13 \<le> k + 1)"
proof (cases b rule: tag_cases)
  case 1
  with outer_step [OF assms, of b k buf l] show ?thesis
    by (simp add: inner_byte_def)
next
  case 2
  with assms show ?thesis by (simp only: inner_step) simp
next
  case 3
  with assms show ?thesis
    by (simp only: terminal_step) (simp add: inner_byte_def)
next
  case 4
  with outer_step [OF assms, of b k buf l] show ?thesis
    by (simp add: inner_byte_def)
qed

declare read_packet_loop.simps [simp del]

lemma inner_prefix:
  "list_all inner_byte pre \<Longrightarrow> x + length pre \<le> 15 \<Longrightarrow>
   read_packet_loop x k buf (pre @ l) =
   read_packet_loop (x + length pre) (k + int (length pre)) (store_bytes pre buf) l"
proof (induction pre arbitrary: x k buf)
  case Nil
  then show ?case by (simp add: store_bytes_def)
next
  case (Cons b pre)
  from Cons.prems have "inner_byte b" "x < 15" by simp_all
  then have "read_packet_loop x k buf ((b # pre) @ l) =
      read_packet_loop (x + 1) (k + 1) (buf[slot b := b AND 0xF]) (pre @ l)"
    by (simp add: inner_step)
  also from Cons.prems have "\<dots> = read_packet_loop (x + 1 + length pre) (k + 1 + int (length pre))
      (store_bytes pre (buf[slot b := b AND 0xF])) l"
    by (intro Cons.IH) simp_all
  finally show ?case by (simp add: store_bytes_def algebra_simps)
qed

lemma store_bytes_snoc: "store_bytes (bs @ [b]) buf = (store_bytes bs buf)[slot b := b AND 0xF]"
  by (simp add: store_bytes_def)

lemma length_store_bytes: "length (store_bytes bs buf) = length buf"
  by (induction bs rule: rev_induct) (simp_all add: store_bytes_snoc, simp add: store_bytes_def)

lemma slot_less: "valid_byte b \<Longrightarrow> slot b < 14"
  unfolding valid_byte_def slot_def by arith



lemma store_bytes_untouched:
  "\<forall>b \<in> set bs. slot b \<noteq> p \<Longrightarrow> store_bytes bs buf ! p = buf ! p"
  by (induction bs rule: rev_induct) (simp_all add: store_bytes_snoc, simp add: store_bytes_def)

lemma store_bytes_latest:
  "i < length bs \<Longrightarrow> \<forall>j. i < j \<and> j < length bs \<longrightarrow> slot (bs ! j) \<noteq> slot (bs ! i) \<Longrightarrow>
   slot (bs ! i) < length buf \<Longrightarrow> store_bytes bs buf ! slot (bs ! i) = bs ! i AND 0xF"
proof (induction bs rule: rev_induct)
  case Nil
  then show ?case by simp
next
  case (snoc b bs)
  show ?case
  proof (cases "i = length bs")
    case True
    with snoc.prems show ?thesis
      by (simp add: store_bytes_snoc length_store_bytes)
  next
    case False
    with snoc.prems have i: "i < length bs" by simp
    from snoc.prems(2) i have "slot b \<noteq> slot (bs ! i)"
      by (auto simp add: nth_append dest: spec [of _ "length bs"])
    moreover from snoc.prems(2) i
    have "\<forall>j. i < j \<and> j < length bs \<longrightarrow> slot (bs ! j) \<noteq> slot (bs ! i)"
      by (auto simp add: nth_append split: if_splits)
    moreover from snoc.prems(3) i have "slot (bs ! i) < length buf"
      by (simp add: nth_append)
    ultimately show ?thesis using i snoc.IH
      by (simp add: store_bytes_snoc nth_append)
  qed
qed

lemma read_packet_terminal:
  assumes "list_all inner_byte pre" "tag t = 14" "length pre \<le> 14"
  shows "read_packet (pre @ t # l) buf =
     (if int (length pre) + 1 < 13
      then \<lparr>ended = Return (- 1),
             printed = ''Only read '' @ show_dec (int (length pre) + 1)
                       @ '' bytes of packet.'' @ [newline],
             frame = store_bytes (pre @ [t]) (clear_loop 0 buf), unread = l\<rparr>
      else \<lparr>ended = Return 0, printed = [],
             frame = store_bytes (pre @ [t]) (clear_loop 0 buf), unread = l\<rparr>)"
  using assms
  by (simp add: read_packet_def inner_prefix terminal_step store_bytes_snoc)


lemma read_packet_overrun:
  assumes "list_all inner_byte pre" "length pre = 15"
  shows "read_packet (pre @ l) buf =
     \<lparr>ended = Return (- 1), printed = ''Read too many bytes.'' @ [newline],
       frame = store_bytes pre (clear_loop 0 buf), unread = l\<rparr>"
  using assms by (simp add: read_packet_def inner_prefix overrun_step)

lemma read_packet_loop_consumed:
  "x \<le> 15 \<Longrightarrow> \<exists>c. l = c @ unread (read_packet_loop x k buf l) \<and> x + length c \<le> 15"
proof (induction l arbitrary: x k buf)
  case Nil
  then show ?case by (simp add: read_packet_loop.simps)
next
  case (Cons b l)
  show ?case
  proof (cases "x < 15")
    case False
    with Cons.prems have "x = 15" by simp
    then show ?thesis by (simp add: overrun_step)
  next
    case True
    let ?r = "read_packet_loop (x + 1) (k + 1) (buf[slot b := b AND 0xF]) l"
    from read_packet_loop_cases [OF True, of b k buf l] show ?thesis
    proof (elim disjE conjE)
      assume step: "read_packet_loop x k buf (b # l) = ?r"
      from True have "x + 1 \<le> 15" by simp
      from Cons.IH [OF this, of "k + 1" "buf[slot b := b AND 0xF]"]
      obtain c where c: "l = c @ unread ?r" "x + 1 + length c \<le> 15" by blast
      have eq: "b # l = (b # c) @ unread ?r"
        unfolding append_Cons using c(1) by (rule arg_cong)
      have "x + length (b # c) \<le> 15" using c(2) by simp
      with eq show ?thesis unfolding step by blast
    next
      assume u: "unread (read_packet_loop x k buf (b # l)) = l"
      have "b # l = [b] @ l" by simp
      moreover have "x + length [b] \<le> 15" using True by simp
      ultimately show ?thesis unfolding u by blast
    qed
  qed
qed


lemma slot_eq_iff: "valid_byte b \<Longrightarrow> slot b = p \<longleftrightarrow> tag b = int p + 1"
  unfolding valid_byte_def slot_def by arith

lemma cleared_nth:
  "14 \<le> length buf \<Longrightarrow> p < 14 \<Longrightarrow> clear_loop 0 buf ! p = 0"
  by (simp add: clear_loop_zero nth_append)

lemma length_clear_loop: "14 \<le> length buf \<Longrightarrow> length (clear_loop 0 buf) = length buf"
  by (simp add: clear_loop_zero)

text \<open>
  C1, as the code has it.  For every sequence of 13 or 14 octets with tags 1 to 14 and at
  least 13 distinct tags, whose last octet has tag 14 and in which no earlier octet has
  tag 14, \<open>read_packet\<close> returns 0 without printing, having consumed exactly the
  sequence.  Afterwards \<open>frame[tag - 1]\<close> is \<open>byte & 0xF\<close> for every octet of the
  sequence that no later octet with the same tag follows, and the positions of the tags
  that did not occur are zero, whatever the buffer held before the call.
\<close>

theorem read_packet_complete_frame:
  assumes len: "length line = 13 \<or> length line = 14"
    and valid: "list_all valid_byte line"
    and last: "tag (last line) = 14"
    and tags: "13 \<le> length (remdups (map tag line))"
    and early: "list_all (\<lambda>b. tag b \<noteq> 14) (butlast line)"
    and buf: "14 \<le> length buf"
  shows "ended (read_packet (line @ rest) buf) = Return 0
    \<and> printed (read_packet (line @ rest) buf) = []
    \<and> unread (read_packet (line @ rest) buf) = rest
    \<and> (\<forall>i < length line.
          (\<forall>j. i < j \<and> j < length line \<longrightarrow> tag (line ! j) \<noteq> tag (line ! i))
          \<longrightarrow> frame (read_packet (line @ rest) buf) ! nat (tag (line ! i) - 1)
              = line ! i AND 0xF)
    \<and> (\<forall>p < 14. (\<forall>b \<in> set line. tag b \<noteq> int p + 1)
          \<longrightarrow> frame (read_packet (line @ rest) buf) ! p = 0)"
proof -
  let ?pre = "butlast line" and ?t = "List.last line"
  from len have ne: "line \<noteq> []" by auto
  then have split: "line = ?pre @ [?t]" by simp
  from valid have "list_all valid_byte ?pre"
    by (auto simp add: list_all_iff dest: in_set_butlastD)
  with early have inner: "list_all inner_byte ?pre"
    by (fastforce simp add: list_all_iff valid_byte_def inner_byte_def)
  from len have n: "12 \<le> length ?pre" "length ?pre \<le> 14" by auto
  have "read_packet (?pre @ ?t # rest) buf =
      \<lparr>ended = Return 0, printed = [],
        frame = store_bytes (?pre @ [?t]) (clear_loop 0 buf), unread = rest\<rparr>"
    using n by (simp add: read_packet_terminal [OF inner last n(2)])
  moreover have "?pre @ ?t # rest = line @ rest"
    using ne by (metis append.assoc append_Cons append_Nil split)
  ultimately have r: "read_packet (line @ rest) buf =
      \<lparr>ended = Return 0, printed = [],
        frame = store_bytes line (clear_loop 0 buf), unread = rest\<rparr>"
    using split by simp
  have stored: "store_bytes line (clear_loop 0 buf) ! nat (tag (line ! i) - 1) = line ! i AND 0xF"
    if i: "i < length line"
      and later: "\<forall>j. i < j \<and> j < length line \<longrightarrow> tag (line ! j) \<noteq> tag (line ! i)" for i
  proof -
    from valid i have vi: "valid_byte (line ! i)" by (simp add: list_all_length)
    have "\<forall>j. i < j \<and> j < length line \<longrightarrow> slot (line ! j) \<noteq> slot (line ! i)"
    proof (intro allI impI)
      fix j assume j: "i < j \<and> j < length line"
      with valid have "valid_byte (line ! j)" by (simp add: list_all_length)
      then have "slot (line ! j) = slot (line ! i) \<longleftrightarrow> tag (line ! j) = int (slot (line ! i)) + 1"
        by (rule slot_eq_iff)
      also from vi have "int (slot (line ! i)) + 1 = tag (line ! i)"
        by (simp add: slot_def valid_byte_def)
      finally show "slot (line ! j) \<noteq> slot (line ! i)" using later j by simp
    qed
    moreover from vi buf have "slot (line ! i) < length (clear_loop 0 buf)"
      using slot_less [OF vi] by (simp add: length_clear_loop)
    ultimately have "store_bytes line (clear_loop 0 buf) ! slot (line ! i) = line ! i AND 0xF"
      using i by (intro store_bytes_latest)
    then show ?thesis by (simp add: slot_def)
  qed
  have untouched: "store_bytes line (clear_loop 0 buf) ! p = 0"
    if p: "p < 14" and none: "\<forall>b \<in> set line. tag b \<noteq> int p + 1" for p
  proof -
    have "\<forall>b \<in> set line. slot b \<noteq> p"
    proof
      fix b assume b: "b \<in> set line"
      with valid have "valid_byte b" by (simp add: list_all_iff)
      from slot_eq_iff [OF this, of p] none b show "slot b \<noteq> p" by simp
    qed
    then have "store_bytes line (clear_loop 0 buf) ! p = clear_loop 0 buf ! p"
      by (rule store_bytes_untouched)
    with buf p show ?thesis by (simp add: cleared_nth)
  qed
  from stored untouched show ?thesis unfolding r by simp
qed


theorem read_packet_complete_frame_witness:
  "(length example_packet = 13 \<or> length example_packet = 14)
   \<and> list_all valid_byte example_packet
   \<and> tag (last example_packet) = 14
   \<and> 13 \<le> length (remdups (map tag example_packet))
   \<and> list_all (\<lambda>b. tag b \<noteq> 14) (butlast example_packet)
   \<and> 14 \<le> length stale_buf
   \<and> ended (read_packet (example_packet @ [0x17]) stale_buf) = Return 0
   \<and> unread (read_packet (example_packet @ [0x17]) stale_buf) = [0x17]
   \<and> frame (read_packet (example_packet @ [0x17]) stale_buf) ! nat (tag (example_packet ! 12) - 1)
       = example_packet ! 12 AND 0xF
   \<and> frame (read_packet (example_packet @ [0x17]) stale_buf) ! 0 = 0"
proof -
  have len: "length example_packet = 13 \<or> length example_packet = 14" by code_simp
  have valid: "list_all valid_byte example_packet" by code_simp
  have last: "tag (last example_packet) = 14" by code_simp
  have tags: "13 \<le> length (remdups (map tag example_packet))" by code_simp
  have early: "list_all (\<lambda>b. tag b \<noteq> 14) (butlast example_packet)" by code_simp
  have buf: "14 \<le> length stale_buf" by code_simp
  note r = read_packet_complete_frame [OF len valid last tags early buf, of "[0x17]"]
  have i: "12 < length example_packet" by code_simp
  have later: "\<forall>j. 12 < j \<and> j < length example_packet
      \<longrightarrow> tag (example_packet ! j) \<noteq> tag (example_packet ! 12)"
    by (simp add: example_packet_def)
  have none: "\<forall>b \<in> set example_packet. tag b \<noteq> int 0 + 1" by code_simp
  from r i later have stored:
    "frame (read_packet (example_packet @ [0x17]) stale_buf) ! nat (tag (example_packet ! 12) - 1)
       = example_packet ! 12 AND 0xF" by blast
  have p: "(0::nat) < 14" by simp
  from r none p have zero: "frame (read_packet (example_packet @ [0x17]) stale_buf) ! 0 = 0"
    by blast
  from r len valid last tags early buf stored zero show ?thesis by blast
qed

text \<open>
  The claim as written fails on two packets of fourteen valid octets with thirteen
  distinct tags that end in a tag-14 octet.  In the first a tag-14 octet also comes
  first: the call ends there with \<open>-1\<close>.  In the second the tag 2 comes twice with
  different data: the call returns 0, and the buffer holds the later nibble, not the
  earlier one.
\<close>

theorem read_packet_early_terminal:
  "length early_terminal_packet = 14 \<and> list_all valid_byte early_terminal_packet
   \<and> tag (last early_terminal_packet) = 14
   \<and> 13 \<le> length (remdups (map tag early_terminal_packet))
   \<and> ended (read_packet early_terminal_packet stale_buf) = Return (- 1)
   \<and> printed (read_packet early_terminal_packet stale_buf)
       = ''Only read 1 bytes of packet.'' @ [newline]
   \<and> length overwritten_tag_packet = 14 \<and> list_all valid_byte overwritten_tag_packet
   \<and> tag (last overwritten_tag_packet) = 14
   \<and> 13 \<le> length (remdups (map tag overwritten_tag_packet))
   \<and> ended (read_packet overwritten_tag_packet stale_buf) = Return 0
   \<and> frame (read_packet overwritten_tag_packet stale_buf)
        ! nat (tag (overwritten_tag_packet ! 0) - 1) \<noteq> overwritten_tag_packet ! 0 AND 0xF"
  by code_simp






text \<open>
  C9.  When the first fifteen octets of a call all have tags 1 to 13, the call stores
  them, prints \<open>Read too many bytes.\<close> and returns \<open>-1\<close> without reading on: every
  octet after the fifteenth is left on the line.  No call consumes more than fifteen
  octets, whatever the line holds.
\<close>

theorem read_packet_too_many:
  "(list_all inner_byte pre \<and> length pre = 15 \<longrightarrow>
      ended (read_packet (pre @ rest) buf) = Return (- 1)
      \<and> printed (read_packet (pre @ rest) buf) = ''Read too many bytes.'' @ [newline]
      \<and> unread (read_packet (pre @ rest) buf) = rest)
   \<and> (\<exists>consumed. line = consumed @ unread (read_packet line buf) \<and> length consumed \<le> 15)"
proof -
  have "\<exists>consumed. line = consumed @ unread (read_packet line buf) \<and> length consumed \<le> 15"
    using read_packet_loop_consumed [of 0 line 0 "clear_loop 0 buf"]
    by (simp add: read_packet_def)
  then show ?thesis by (simp add: read_packet_overrun)
qed

theorem read_packet_too_many_witness:
  "list_all inner_byte (replicate 15 0x21) \<and> length (replicate 15 (0x21 :: u8)) = 15
   \<and> ended (read_packet (replicate 15 0x21 @ [0xE8, 0x17]) stale_buf) = Return (- 1)
   \<and> printed (read_packet (replicate 15 0x21 @ [0xE8, 0x17]) stale_buf)
       = ''Read too many bytes.'' @ [newline]
   \<and> unread (read_packet (replicate 15 0x21 @ [0xE8, 0x17]) stale_buf) = [0xE8, 0x17]"
proof -
  have h: "list_all inner_byte (replicate 15 0x21) \<and> length (replicate 15 (0x21 :: u8)) = 15"
    by code_simp
  from read_packet_too_many [of "replicate 15 0x21" "[0xE8, 0x17]" stale_buf] h
  show ?thesis by blast
qed

section \<open>Attribute bits\<close>

lemma nibble_test: "uint (w :: u8) AND 2 ^ k \<noteq> 0 \<longleftrightarrow> bit w k"
  by (auto simp add: and_exp_eq_0_iff_not_bit bit_uint_iff dest: bit_imp_le_length)

lemma bit_set_attribute:
  "m < 24 \<Longrightarrow> bit (a OR 2 ^ m :: ulong) n \<longleftrightarrow> bit a n \<or> n = m"
  by (auto simp add: bit_simps)

lemma bit_decode_attributes_loop:
  "bit (decode_attributes_loop b a buf) n \<longleftrightarrow>
     bit a n \<or> (b \<le> n \<and> n < 24 \<and> bit (buf ! attribute_source n) (n mod 4))"
proof (induction b a buf rule: decode_attributes_loop.induct)
  case (1 b a buf)
  show ?case
  proof (cases "b < 24")
    case False
    then show ?thesis by (subst decode_attributes_loop.simps) auto
  next
    case True
    let ?a = "if uint (buf ! attribute_source b) AND push_bit (b mod 4) 1 \<noteq> 0
              then a OR word_of_int (push_bit b 1) else a"
    have step: "decode_attributes_loop b a buf = decode_attributes_loop (b + 1) ?a buf"
      using True by (subst decode_attributes_loop.simps) (simp add: Let_def attribute_source_def)
    have IH: "bit (decode_attributes_loop (b + 1) ?a buf) n \<longleftrightarrow>
        bit ?a n \<or> (b + 1 \<le> n \<and> n < 24 \<and> bit (buf ! attribute_source n) (n mod 4))"
      using "1.IH" [OF True refl refl] by (simp add: attribute_source_def)
    have "bit ?a n \<longleftrightarrow> bit a n \<or> (n = b \<and> bit (buf ! attribute_source b) (b mod 4))"
      using True by (simp add: nibble_test bit_set_attribute)
    with IH have "bit (decode_attributes_loop b a buf) n \<longleftrightarrow>
        bit a n \<or> (n = b \<and> bit (buf ! attribute_source b) (b mod 4))
        \<or> (b + 1 \<le> n \<and> n < 24 \<and> bit (buf ! attribute_source n) (n mod 4))"
      unfolding step by blast
    also have "\<dots> \<longleftrightarrow>
        bit a n \<or> (b \<le> n \<and> n < 24 \<and> bit (buf ! attribute_source n) (n mod 4))"
      using True by (cases "n = b") auto
    finally show ?thesis .
  qed
qed

lemma bit_decode_attributes:
  "bit (decode_attributes buf) n \<longleftrightarrow> n < 24 \<and> bit (buf ! attribute_source n) (n mod 4)"
  by (simp add: decode_attributes_def bit_decode_attributes_loop)

lemma attribute_source_range: "n < 24 \<Longrightarrow> attribute_source n \<in> {0, 9, 10, 11, 12, 13}"
  unfolding attribute_source_def by (simp split: if_splits) arith

lemma quotient_remainder_4:
  "k < 4 \<Longrightarrow> n div 4 = j \<and> n mod 4 = k \<longleftrightarrow> n = 4 * j + (k :: nat)"
  by auto

lemma attribute_position:
  assumes "i \<in> {0, 9, 10, 11, 12, 13}" "k < 4"
  shows "n < 24 \<and> attribute_source n = i \<and> n mod 4 = k
    \<longleftrightarrow> n = (if i = 0 then k else 4 * (i - 8) + k)"
proof (cases "i = 0")
  case True
  have "attribute_source n = 0 \<longleftrightarrow> n < 4"
    by (simp add: attribute_source_def)
  with True assms(2) show ?thesis by auto
next
  case False
  with assms(1) have i: "9 \<le> i" "i \<le> 13" by auto
  have "attribute_source n = i \<longleftrightarrow> n div 4 = i - 8"
  proof (cases "n < 4")
    case True
    with i show ?thesis by (simp add: attribute_source_def)
  next
    case False
    with i show ?thesis by (auto simp add: attribute_source_def)
  qed
  then have "attribute_source n = i \<and> n mod 4 = k \<longleftrightarrow> n = 4 * (i - 8) + k"
    using quotient_remainder_4 [OF assms(2), of n "i - 8"] by blast
  moreover have "n < 24" if "n = 4 * (i - 8) + k"
    using that i assms(2) by simp
  ultimately show ?thesis using False by auto
qed

lemma decode_attributes_depends:
  assumes "\<forall>i \<in> {0, 9, 10, 11, 12, 13}. buf' ! i = buf ! i"
  shows "decode_attributes buf' = decode_attributes buf"
proof (rule bit_word_eqI)
  fix n
  show "bit (decode_attributes buf') n \<longleftrightarrow> bit (decode_attributes buf) n"
  proof (cases "n < 24")
    case True
    from attribute_source_range [OF this] assms
    have "buf' ! attribute_source n = buf ! attribute_source n" by blast
    then show ?thesis by (simp add: bit_decode_attributes)
  next
    case False
    then show ?thesis by (simp add: bit_decode_attributes)
  qed
qed

lemma decode_attributes_flip:
  assumes i: "i \<in> {0, 9, 10, 11, 12, 13}" and len: "i < length buf" and k: "k < 4"
  shows "decode_attributes (buf[i := buf ! i XOR push_bit k 1])
     = decode_attributes buf XOR push_bit (if i = 0 then k else 4 * (i - 8) + k) 1"
proof (rule bit_word_eqI)
  fix n
  let ?pos = "if i = 0 then k else 4 * (i - 8) + k"
  let ?buf = "buf[i := buf ! i XOR push_bit k 1]"
  assume "n < LENGTH(64)"
  then have n: "n < 64" by simp
  have pos: "n < 24 \<and> attribute_source n = i \<and> n mod 4 = k \<longleftrightarrow> n = ?pos"
    using i k by (rule attribute_position)
  have toggled: "bit (buf ! i XOR push_bit k 1) m \<longleftrightarrow> bit (buf ! i) m \<noteq> (m = k)" if "m < 4" for m
    using that k by (auto simp add: bit_simps)
  have "bit (decode_attributes ?buf) n \<longleftrightarrow> bit (decode_attributes buf) n \<noteq> (n = ?pos)"
  proof (cases "n < 24 \<and> attribute_source n = i")
    case True
    then have "?buf ! attribute_source n = buf ! i XOR push_bit k 1"
      using len by simp
    moreover have "n mod 4 < 4" by simp
    ultimately have "bit (decode_attributes ?buf) n \<longleftrightarrow> bit (buf ! i) (n mod 4) \<noteq> (n mod 4 = k)"
      using True by (simp only: bit_decode_attributes toggled) simp
    moreover from True have "bit (decode_attributes buf) n \<longleftrightarrow> bit (buf ! i) (n mod 4)"
      by (simp add: bit_decode_attributes)
    moreover from True pos have "n mod 4 = k \<longleftrightarrow> n = ?pos" by blast
    ultimately show ?thesis by blast
  next
    case False
    with pos have "n \<noteq> ?pos" by blast
    moreover from False have "bit (decode_attributes ?buf) n \<longleftrightarrow> bit (decode_attributes buf) n"
      by (auto simp add: bit_decode_attributes)
    ultimately show ?thesis by blast
  qed
  moreover have "bit (push_bit ?pos 1 :: ulong) n \<longleftrightarrow> n = ?pos"
    using n by (auto simp add: bit_simps)
  ultimately show "bit (decode_attributes ?buf) n
      \<longleftrightarrow> bit (decode_attributes buf XOR push_bit ?pos 1) n"
    by (simp add: bit_xor_iff)
qed

text \<open>
  C4.  Bit \<open>n\<close> of the value of \<open>decode_attributes\<close>, for \<open>n\<close> from 0 to 23, is bit
  \<open>n % 4\<close> of the buffer entry at index 0 when \<open>n < 4\<close> and at index \<open>n / 4 + 8\<close>
  otherwise; the bits from 24 on are clear.  So the value is the same for two buffers
  that agree at the indices 0 and 9 to 13, and flipping bit \<open>k\<close> (0 to 3) of the entry
  at one of these indices flips exactly one bit of the value, the one at position \<open>k\<close>
  for index 0 and at \<open>4 * (i - 8) + k\<close> for index \<open>i\<close> from 9 to 13.
\<close>

theorem decode_attributes_bits:
  "(n < 24 \<longrightarrow>
      bit (decode_attributes buf) n = bit (buf ! (if n < 4 then 0 else n div 4 + 8)) (n mod 4))
   \<and> (24 \<le> n \<longrightarrow> \<not> bit (decode_attributes buf) n)
   \<and> ((\<forall>i \<in> {0, 9, 10, 11, 12, 13}. buf' ! i = buf ! i)
        \<longrightarrow> decode_attributes buf' = decode_attributes buf)
   \<and> (i \<in> {0, 9, 10, 11, 12, 13} \<and> i < length buf \<and> k < 4 \<longrightarrow>
        decode_attributes (buf[i := buf ! i XOR push_bit k 1])
          = decode_attributes buf XOR push_bit (if i = 0 then k else 4 * (i - 8) + k) 1)"
proof -
  have "bit (decode_attributes buf) n
      = bit (buf ! (if n < 4 then 0 else n div 4 + 8)) (n mod 4)" if "n < 24"
    using that by (simp add: bit_decode_attributes attribute_source_def)
  moreover have "\<not> bit (decode_attributes buf) n" if "24 \<le> n"
    using that by (simp add: bit_decode_attributes)
  ultimately show ?thesis
    using decode_attributes_depends [of buf' buf] decode_attributes_flip [of i buf k]
    by blast
qed

theorem decode_attributes_bits_witness:
  "(5::nat) < 24
   \<and> bit (decode_attributes example_frame) 5
       = bit (example_frame ! (if (5::nat) < 4 then 0 else 5 div 4 + 8)) (5 mod 4)
   \<and> (24::nat) \<le> 30 \<and> \<not> bit (decode_attributes example_frame) 30
   \<and> decode_attributes (example_frame[3 := 0]) = decode_attributes example_frame
   \<and> (13::nat) \<in> {0, 9, 10, 11, 12, 13} \<and> 13 < length example_frame \<and> (2::nat) < 4
   \<and> decode_attributes (example_frame[13 := example_frame ! 13 XOR push_bit 2 1])
       = decode_attributes example_frame XOR push_bit (if (13::nat) = 0 then 2 else 4 * (13 - 8) + 2) 1"
proof -
  have h1: "(5::nat) < 24" and h2: "(24::nat) \<le> 30" by simp_all
  have h3: "\<forall>i \<in> {0, 9, 10, 11, 12, 13}. (example_frame[3 := 0]) ! i = example_frame ! i"
    by simp
  have h4: "(13::nat) \<in> {0, 9, 10, 11, 12, 13} \<and> 13 < length example_frame \<and> (2::nat) < 4"
    by code_simp
  from decode_attributes_bits [of 5 example_frame "example_frame[3 := 0]" 13 2]
    decode_attributes_bits [of 30 example_frame "example_frame[3 := 0]" 13 2]
    h1 h2 h3 h4
  show ?thesis by blast
qed

section \<open>The example packet, end to end\<close>

lemma store_bytes_append:
  "list_all (\<lambda>b. slot b < length xs) bs \<Longrightarrow>
   store_bytes bs (xs @ ys) = store_bytes bs xs @ ys"
proof (induction bs arbitrary: xs)
  case Nil
  then show ?case by (simp add: store_bytes_def)
next
  case (Cons b bs)
  from Cons.prems have "list_all (\<lambda>c. slot c < length (xs[slot b := b AND 0xF])) bs"
    by simp
  from Cons.IH [OF this] Cons.prems show ?case
    by (simp add: store_bytes_def list_update_append1)
qed

lemma read_packet_example:
  assumes "14 \<le> length buf"
  shows "read_packet example_packet buf =
     \<lparr>ended = Return 0, printed = [], frame = example_frame @ drop 14 buf, unread = []\<rparr>"
proof -
  let ?pre = "[0x27, 0x3D, 0x42, 0x57, 0x69, 0x75, 0x80, 0x95, 0xA2, 0xB0, 0xC4, 0xD0] :: u8 list"
  have split: "example_packet = ?pre @ 0xE8 # []" by (simp add: example_packet_def)
  have inner: "list_all inner_byte ?pre" by code_simp
  have t: "tag 0xE8 = 14" by code_simp
  have slots: "list_all (\<lambda>b. slot b < length (replicate 14 (0::u8))) example_packet"
    by code_simp
  have stored: "store_bytes example_packet (replicate 14 0) = example_frame" by code_simp
  have "read_packet (?pre @ 0xE8 # []) buf =
     \<lparr>ended = Return 0, printed = [],
       frame = store_bytes (?pre @ [0xE8]) (clear_loop 0 buf), unread = []\<rparr>"
    using read_packet_terminal [OF inner t, of "[]" buf] by simp
  also have "?pre @ [0xE8] = example_packet" by (simp add: example_packet_def)
  also have "store_bytes example_packet (clear_loop 0 buf) = example_frame @ drop 14 buf"
    using assms by (simp add: clear_loop_zero store_bytes_append [OF slots] stored)
  finally show ?thesis by (simp only: split)
qed

lemma pair_prefix:
  assumes "n + 1 < length xs"
  shows "pair_value (xs @ ys) n = pair_value xs n" "pair_mark (xs @ ys) n = pair_mark xs n"
    "unknown_digit_message (xs @ ys) n = unknown_digit_message xs n"
  using assms by (simp_all add: pair_value_def pair_mark_def unknown_digit_message_def nth_append)

lemma print_display_number_prefix:
  assumes "9 \<le> length xs"
  shows "print_display_number (xs @ ys) = print_display_number xs"
proof -
  from assms have "1 + 1 < length xs" "3 + 1 < length xs" "5 + 1 < length xs" "7 + 1 < length xs"
    by simp_all
  then show ?thesis
    by (simp only: print_display_unrolled pair_prefix)
qed

lemma decode_attributes_prefix:
  assumes "14 \<le> length xs"
  shows "decode_attributes (xs @ ys) = decode_attributes xs"
  using assms by (intro decode_attributes_depends) (auto simp add: nth_append)

lemma read_packet_eof:
  "read_packet [] buf =
     \<lparr>ended = Exit 0, printed = ''Read EOF'' @ [newline], frame = clear_loop 0 buf, unread = []\<rparr>"
  by (simp add: read_packet_def read_packet_loop.simps)

text \<open>
  C2.  For the packet \<open>27 3D 42 57 69 75 80 95 A2 B0 C4 D0 E8\<close>, with any buffer to
  start from, \<open>read_packet\<close> returns 0 and leaves the nibbles
  \<open>0 7 D 2 7 9 5 0 5 2 0 4 0 8\<close> in positions 0 to 13.  The four pairs decode to 0, 4, 7
  and 1; bit 3 is set on the first nibble of the third pair only, at buffer index 5, so
  there is no sign and the decimal point stands after the second digit: the text printed
  is \<open>04.71\<close>.  The attribute value has exactly the bits of kilo, ohms and the unknown
  \<open>E8\<close>, printed as \<open>kilo Ohms (unknown E8)\<close>.  The whole program, run on this
  packet, prints the line \<open>04.71 kilo Ohms (unknown E8)\<close>, then \<open>Read EOF\<close>, and
  exits with status 0.
\<close>

theorem example_packet_decodes:
  assumes "14 \<le> length buf"
  shows "read_packet example_packet buf =
      \<lparr>ended = Return 0, printed = [], frame = example_frame @ drop 14 buf, unread = []\<rparr>
    \<and> map (pair_value (frame (read_packet example_packet buf))) [1, 3, 5, 7] = [0, 4, 7, 1]
    \<and> map (\<lambda>n. frame (read_packet example_packet buf) ! n AND 0x8 \<noteq> 0) [1, 3, 5, 7]
        = [False, False, True, False]
    \<and> print_display_number (frame (read_packet example_packet buf)) = (0, ''04.71'')
    \<and> decode_attributes (frame (read_packet example_packet buf))
        = ATTR_KILO OR ATTR_OHMS OR ATTR_UNK_E8
    \<and> print_attributes_c (decode_attributes (frame (read_packet example_packet buf)))
        = ''kilo Ohms (unknown E8) ''
    \<and> printed (main_body example_packet buf) = ''04.71 kilo Ohms (unknown E8) '' @ [newline]
    \<and> main_while example_packet buf
        = (0, ''04.71 kilo Ohms (unknown E8) '' @ [newline] @ ''Read EOF'' @ [newline])"
proof -
  let ?F = "example_frame @ drop 14 buf"
  note r = read_packet_example [OF assms]
  have len: "length example_frame = 14" by code_simp
  have digits: "map (pair_value ?F) [1, 3, 5, 7] = [0, 4, 7, 1]"
  proof -
    have "map (pair_value example_frame) [1, 3, 5, 7] = [0, 4, 7, 1]" by code_simp
    then show ?thesis by (simp add: pair_prefix len)
  qed
  have marks: "map (\<lambda>n. ?F ! n AND 0x8 \<noteq> 0) [1, 3, 5, 7] = [False, False, True, False]"
  proof -
    have "map (\<lambda>n. example_frame ! n AND 0x8 \<noteq> 0) [1, 3, 5, 7] = [False, False, True, False]"
      by code_simp
    then show ?thesis by (simp add: nth_append len)
  qed
  have shown: "print_display_number ?F = (0, ''04.71'')"
  proof -
    have "print_display_number example_frame = (0, ''04.71'')" by code_simp
    then show ?thesis by (simp add: print_display_number_prefix len)
  qed
  have attrs: "decode_attributes ?F = ATTR_KILO OR ATTR_OHMS OR ATTR_UNK_E8"
  proof -
    have "decode_attributes example_frame = ATTR_KILO OR ATTR_OHMS OR ATTR_UNK_E8" by code_simp
    then show ?thesis by (simp add: decode_attributes_prefix len)
  qed
  have names: "print_attributes_c (ATTR_KILO OR ATTR_OHMS OR ATTR_UNK_E8) = ''kilo Ohms (unknown E8) ''"
    by code_simp
  have body: "main_body example_packet buf =
      \<lparr>ended = Return 0, printed = ''04.71 kilo Ohms (unknown E8) '' @ [newline],
        frame = ?F, unread = []\<rparr>"
    by (simp add: main_body_def r shown attrs names)
  have eof: "main_body [] ?F =
      \<lparr>ended = Exit 0, printed = ''Read EOF'' @ [newline], frame = clear_loop 0 ?F, unread = []\<rparr>"
    by (simp add: main_body_def read_packet_eof)
  have "main_while [] ?F = (0, ''Read EOF'' @ [newline])"
    by (subst main_while.simps) (simp add: eof)
  then have whole: "main_while example_packet buf
      = (0, ''04.71 kilo Ohms (unknown E8) '' @ [newline] @ ''Read EOF'' @ [newline])"
    by (subst main_while.simps) (simp add: body)
  from r digits marks shown attrs names body whole show ?thesis by simp
qed

theorem example_packet_decodes_witness:
  "14 \<le> length stale_buf
   \<and> frame (read_packet example_packet stale_buf) = example_frame @ [0xFF]
   \<and> print_display_number (frame (read_packet example_packet stale_buf)) = (0, ''04.71'')
   \<and> main_while example_packet stale_buf
       = (0, ''04.71 kilo Ohms (unknown E8) '' @ [newline] @ ''Read EOF'' @ [newline])"
proof -
  have h: "14 \<le> length stale_buf" by code_simp
  have tail: "drop 14 stale_buf = [0xFF]" by code_simp
  note t = example_packet_decodes [OF h]
  from t have "read_packet example_packet stale_buf =
      \<lparr>ended = Return 0, printed = [], frame = example_frame @ drop 14 stale_buf, unread = []\<rparr>"
    by (rule conjunct1)
  then have "frame (read_packet example_packet stale_buf) = example_frame @ [0xFF]"
    by (simp add: tail)
  moreover from t
  have "print_display_number (frame (read_packet example_packet stale_buf)) = (0, ''04.71'')"
    by blast
  moreover from t have "main_while example_packet stale_buf
      = (0, ''04.71 kilo Ohms (unknown E8) '' @ [newline] @ ''Read EOF'' @ [newline])"
    by blast
  ultimately show ?thesis using h by blast
qed

end
